theory Spec2Isabelle
  imports
    Main
    "HOL-Library.Char_ord"
    "HOL-Library.List_Lexorder"
    "HOL-Library.Multiset"
begin

section \<open>The extractor: \<open>endpointRegex\<close> and \<open>FindAllStringSubmatch\<close>\<close>

text \<open>
  A Go string is a sequence of bytes, here a \<^typ>\<open>string\<close> (a list of 8-bit characters).
  The pattern of the source is
  \<^verbatim>\<open>(?i)(["'])(\/[a-zA-Z0-9_?%&=\/\-\#\.\(\)]+)(["'])\<close>:
  group 1 is one quote character, group 2 is a slash followed by one or more characters of
  the class, group 3 is one quote character. Go's regexp package has no back-references, and
  the pattern uses none: group 3 is matched independently of group 1.
\<close>

definition is_quote :: "char \<Rightarrow> bool" where
  "is_quote c \<longleftrightarrow> c = CHR 0x22 \<or> c = CHR 0x27"

text \<open>The ASCII members of the class \<^verbatim>\<open>[a-zA-Z0-9_?%&=\/\-\#\.\(\)]\<close>.\<close>

definition is_path_byte :: "char \<Rightarrow> bool" where
  "is_path_byte c \<longleftrightarrow>
     (CHR ''a'' \<le> c \<and> c \<le> CHR ''z'') \<or>
     (CHR ''A'' \<le> c \<and> c \<le> CHR ''Z'') \<or>
     (CHR ''0'' \<le> c \<and> c \<le> CHR ''9'') \<or>
     c \<in> set ''_?%&=/-#.()''"

text \<open>
  The pattern is compiled with the flag \<^verbatim>\<open>(?i)\<close>. Go's parser then closes every range of
  the class under Unicode simple case folding, and the orbits of \<open>k\<close> and \<open>s\<close> hold one
  character outside ASCII each: U+212A (KELVIN SIGN, UTF-8 \<open>E2 84 AA\<close>) and U+017F (LATIN
  SMALL LETTER LONG S, UTF-8 \<open>C5 BF\<close>). The matcher decodes the input as UTF-8, so the class
  matches those two byte sequences as one character each. \<open>class_rune s\<close> is the number of
  bytes of the class character at the head of \<open>s\<close>, and 0 when there is none.
\<close>

definition long_s :: string where
  "long_s = [CHR 0xC5, CHR 0xBF]"

definition kelvin_sign :: string where
  "kelvin_sign = [CHR 0xE2, CHR 0x84, CHR 0xAA]"

definition class_rune :: "string \<Rightarrow> nat" where
  "class_rune s =
     (if s \<noteq> [] \<and> is_path_byte (hd s) then 1
      else if take 2 s = long_s then 2
      else if take 3 s = kelvin_sign then 3
      else 0)"

lemma class_rune_le: "class_rune s \<le> length s"
proof -
  have "take 2 s = long_s \<Longrightarrow> 2 \<le> length s"
    by (metis length_take long_s_def length_Cons list.size(3) min.cobounded1 numeral_2_eq_2)
  moreover have "take 3 s = kelvin_sign \<Longrightarrow> 3 \<le> length s"
    by (metis length_take kelvin_sign_def length_Cons list.size(3) min.cobounded1 numeral_3_eq_3)
  ultimately show ?thesis
    by (cases s) (auto simp add: class_rune_def long_s_def kelvin_sign_def)
qed

text \<open>
  \<open>path_run s\<close> splits \<open>s\<close> into its longest prefix made of characters of the class (the
  greedy \<^verbatim>\<open>+\<close>) and the rest.
\<close>

function path_run :: "string \<Rightarrow> string \<times> string" where
  "path_run s =
     (let n = class_rune s in
      if n = 0 then ([], s)
      else (case path_run (drop n s) of (p, r) \<Rightarrow> (take n s @ p, r)))"
  by pat_completeness auto
termination
proof (relation "measure length")
  show "wf (measure length)" by simp
next
  fix s :: string and n
  assume "n = class_rune s" and "n \<noteq> 0"
  with class_rune_le [of s] show "(drop n s, s) \<in> measure length"
    by (cases s) auto
qed

declare path_run.simps [simp del]

text \<open>
  One match attempt at the head of \<open>s\<close>. The result is the submatch slice of Go,
  \<open>[match[0], match[1], match[2], match[3]]\<close>, and the input left after the match. The class
  holds no quote, so the greedy run cannot be shortened to make the closing quote match: the
  attempt succeeds exactly when the longest run is followed by a quote.
\<close>

definition match_here :: "string \<Rightarrow> (string list \<times> string) option" where
  "match_here s =
     (case s of
        q # sl # cs \<Rightarrow>
          if is_quote q \<and> sl = CHR ''/'' then
            (case path_run cs of
               (p, r) \<Rightarrow>
                 (case r of
                    q' # rest \<Rightarrow>
                      if p \<noteq> [] \<and> is_quote q' then
                        Some ([q # sl # p @ [q'], [q], sl # p, [q']], rest)
                      else None
                  | [] \<Rightarrow> None))
          else None
      | _ \<Rightarrow> None)"

lemma path_run_append: "path_run s = (p, r) \<Longrightarrow> s = p @ r"
proof (induction s arbitrary: p r rule: path_run.induct)
  case (1 s)
  show ?case
  proof (cases "class_rune s = 0")
    case True
    with 1(2) show ?thesis by (simp add: path_run.simps [of s])
  next
    case False
    obtain p' r' where pr: "path_run (drop (class_rune s) s) = (p', r')"
      by (cases "path_run (drop (class_rune s) s)")
    from 1(1) [OF refl False pr] have "drop (class_rune s) s = p' @ r'" .
    moreover from 1(2) False pr have "p = take (class_rune s) s @ p'" "r = r'"
      by (simp_all add: path_run.simps [of s])
    ultimately show ?thesis
      by (metis append.assoc append_take_drop_id)
  qed
qed

lemma match_here_shorter: "match_here s = Some (m, rest) \<Longrightarrow> length rest < length s"
  by (auto simp: match_here_def split: list.splits if_splits prod.splits dest: path_run_append)

text \<open>
  \<open>re.FindAllStringSubmatch(s, -1)\<close>: the leftmost match, then the search goes on after it
  (matches do not overlap; every match of this pattern is non-empty). \<open>off\<close> is the byte
  offset of \<open>s\<close> in the body; each match is returned with the offset where it starts.
\<close>

function findAllAt :: "nat \<Rightarrow> string \<Rightarrow> (nat \<times> string list) list" where
  "findAllAt off [] = []"
| "findAllAt off (c # cs) =
     (case match_here (c # cs) of
        Some (m, rest) \<Rightarrow> (off, m) # findAllAt (off + length (c # cs) - length rest) rest
      | None \<Rightarrow> findAllAt (Suc off) cs)"
  by pat_completeness auto
termination
  by (relation "measure (\<lambda>(off, s). length s)") (auto dest: match_here_shorter)

definition FindAllStringSubmatchIndex :: "string \<Rightarrow> (nat \<times> string list) list" where
  "FindAllStringSubmatchIndex body = findAllAt 0 body"

definition FindAllStringSubmatch :: "string \<Rightarrow> string list list" where
  "FindAllStringSubmatch body = map snd (FindAllStringSubmatchIndex body)"

text \<open>
  The loop of \<open>fetchAndFindLinks\<close> over the matches (lines 75 to 82):
  \<^verbatim>\<open>if len(match) > 1 { endpoints = append(endpoints, match[2]) }\<close>.
\<close>

fun collect_endpoints :: "string list list \<Rightarrow> string list" where
  "collect_endpoints [] = []"
| "collect_endpoints (m # ms) =
     (if length m > 1 then (m ! 2) # collect_endpoints ms else collect_endpoints ms)"

definition extractEndpoints :: "string \<Rightarrow> string list" where
  "extractEndpoints body = collect_endpoints (FindAllStringSubmatch body)"

subsection \<open>What a match looks like\<close>

text \<open>
  \<open>class_char e\<close>: the bytes \<open>e\<close> are one character of the class, as the matcher reads it.
  \<open>class_string p\<close>: \<open>p\<close> is a sequence of such characters. \<open>occurs_at body i e\<close>: the bytes
  \<open>e\<close> stand in \<open>body\<close> at byte offset \<open>i\<close>.
\<close>

definition class_char :: "string \<Rightarrow> bool" where
  "class_char e \<longleftrightarrow>
     (case e of [c] \<Rightarrow> is_path_byte c | _ \<Rightarrow> e = long_s \<or> e = kelvin_sign)"

definition class_string :: "string \<Rightarrow> bool" where
  "class_string p \<longleftrightarrow> (\<exists>es. p = concat es \<and> list_all class_char es)"

definition occurs_at :: "string \<Rightarrow> nat \<Rightarrow> string \<Rightarrow> bool" where
  "occurs_at body i e \<longleftrightarrow> i + length e \<le> length body \<and> take (length e) (drop i body) = e"




lemma class_rune_class_char:
  assumes "class_rune s \<noteq> 0"
  shows "class_char (take (class_rune s) s)"
proof (cases s)
  case Nil
  with assms show ?thesis by (simp add: class_rune_def long_s_def kelvin_sign_def)
next
  case (Cons c cs)
  show ?thesis
  proof (cases "is_path_byte c")
    case True
    with Cons show ?thesis by (simp add: class_rune_def class_char_def)
  next
    case False
    with Cons assms show ?thesis
      by (auto simp: class_rune_def class_char_def long_s_def kelvin_sign_def
          split: if_splits list.splits)
  qed
qed

lemma class_string_Nil: "class_string []"
  unfolding class_string_def by (rule exI [of _ "[]"]) simp

lemma class_string_app: "class_char e \<Longrightarrow> class_string p \<Longrightarrow> class_string (e @ p)"
proof -
  assume e: "class_char e" and "class_string p"
  then obtain es where "p = concat es" "list_all class_char es"
    by (auto simp: class_string_def)
  with e have "e @ p = concat (e # es) \<and> list_all class_char (e # es)" by simp
  then show ?thesis unfolding class_string_def by blast
qed

lemma path_run_class: "path_run s = (p, r) \<Longrightarrow> class_string p"
proof (induction s arbitrary: p r rule: path_run.induct)
  case (1 s)
  show ?case
  proof (cases "class_rune s = 0")
    case True
    with 1(2) show ?thesis by (simp add: path_run.simps [of s] class_string_Nil)
  next
    case False
    obtain p' r' where pr: "path_run (drop (class_rune s) s) = (p', r')"
      by (cases "path_run (drop (class_rune s) s)")
    from 1(1) [OF refl False pr] have "class_string p'" .
    moreover from 1(2) False pr have "p = take (class_rune s) s @ p'"
      by (simp add: path_run.simps [of s])
    ultimately show ?thesis
      using class_rune_class_char [OF False] by (simp add: class_string_app)
  qed
qed

lemma class_char_cases:
  "class_char e \<longleftrightarrow> (\<exists>c. e = [c] \<and> is_path_byte c) \<or> e = long_s \<or> e = kelvin_sign"
  by (auto simp: class_char_def long_s_def kelvin_sign_def split: list.splits)

lemma class_rune_long_s: "class_rune (long_s @ t) = 2"
  by (simp add: class_rune_def long_s_def is_path_byte_def)

lemma class_rune_kelvin_sign: "class_rune (kelvin_sign @ t) = 3"
  by (simp add: class_rune_def long_s_def kelvin_sign_def is_path_byte_def)

lemma class_char_rune: "class_char e \<Longrightarrow> class_rune (e @ t) = length e"
  unfolding class_char_cases
proof (elim disjE exE conjE)
  fix c assume "e = [c]" "is_path_byte c"
  then show ?thesis by (simp add: class_rune_def)
next
  assume "e = long_s"
  then show ?thesis by (simp add: class_rune_long_s) (simp add: long_s_def)
next
  assume "e = kelvin_sign"
  then show ?thesis by (simp add: class_rune_kelvin_sign) (simp add: kelvin_sign_def)
qed

lemma class_char_nonempty: "class_char e \<Longrightarrow> e \<noteq> []"
  by (auto simp: class_char_def long_s_def kelvin_sign_def)

lemma quote_rune: "is_quote q \<Longrightarrow> class_rune (q # t) = 0"
  by (auto simp: class_rune_def is_quote_def is_path_byte_def long_s_def kelvin_sign_def)

lemma path_run_concat:
  "list_all class_char es \<Longrightarrow> class_rune t = 0 \<Longrightarrow> path_run (concat es @ t) = (concat es, t)"
proof (induction es)
  case Nil
  then show ?case by (simp add: path_run.simps [of t])
next
  case (Cons e es)
  then have e: "class_char e" and IH: "path_run (concat es @ t) = (concat es, t)" by simp_all
  from e have n: "class_rune (e @ concat es @ t) = length e" by (rule class_char_rune)
  from e have "length e \<noteq> 0" by (simp add: class_char_nonempty)
  with n IH show ?case
    by (simp add: path_run.simps [of "e @ concat es @ t"])
qed

lemma path_run_class_string:
  "class_string p \<Longrightarrow> is_quote q \<Longrightarrow> path_run (p @ q # t) = (p, q # t)"
  by (auto simp: class_string_def path_run_concat quote_rune)

lemma match_here_Some:
  "match_here s = Some (m, rest) \<longleftrightarrow>
     (\<exists>q p q'. s = q # CHR ''/'' # p @ q' # rest \<and>
        m = [q # CHR ''/'' # p @ [q'], [q], CHR ''/'' # p, [q']] \<and>
        is_quote q \<and> is_quote q' \<and> p \<noteq> [] \<and> class_string p)"
proof
  assume "match_here s = Some (m, rest)"
  then show "\<exists>q p q'. s = q # CHR ''/'' # p @ q' # rest \<and>
        m = [q # CHR ''/'' # p @ [q'], [q], CHR ''/'' # p, [q']] \<and>
        is_quote q \<and> is_quote q' \<and> p \<noteq> [] \<and> class_string p"
    by (auto simp: match_here_def split: list.splits if_splits prod.splits
        dest: path_run_append path_run_class)
next
  assume "\<exists>q p q'. s = q # CHR ''/'' # p @ q' # rest \<and>
        m = [q # CHR ''/'' # p @ [q'], [q], CHR ''/'' # p, [q']] \<and>
        is_quote q \<and> is_quote q' \<and> p \<noteq> [] \<and> class_string p"
  then show "match_here s = Some (m, rest)"
    by (auto simp: match_here_def path_run_class_string)
qed

lemma findAllAt_bounds:
  "(i, m) \<in> set (findAllAt off s) \<Longrightarrow>
     off \<le> i \<and> i + length (m ! 0) \<le> off + length s \<and>
     take (length (m ! 0)) (drop (i - off) s) = m ! 0 \<and>
     (\<exists>rest. match_here (drop (i - off) s) = Some (m, rest))"
proof (induction off s rule: findAllAt.induct)
  case (1 off)
  then show ?case by simp
next
  case (2 off c cs)
  show ?case
  proof (cases "match_here (c # cs)")
    case None
    with 2 have "(i, m) \<in> set (findAllAt (Suc off) cs)" by simp
    from 2(1) [OF None this] have IH: "Suc off \<le> i"
      "i + length (m ! 0) \<le> Suc off + length cs"
      "take (length (m ! 0)) (drop (i - Suc off) cs) = m ! 0"
      "\<exists>rest. match_here (drop (i - Suc off) cs) = Some (m, rest)" by auto
    from IH(1) have "i - off = Suc (i - Suc off)" by simp
    with IH show ?thesis by auto
  next
    case (Some a)
    obtain m0 rest where a: "a = (m0, rest)" by (cases a)
    from Some a have mh: "match_here (c # cs) = Some (m0, rest)" by simp
    then obtain q p q' where
      s: "c # cs = q # CHR ''/'' # p @ q' # rest" and
      m0: "m0 = [q # CHR ''/'' # p @ [q'], [q], CHR ''/'' # p, [q']]"
      by (auto simp: match_here_Some)
    let ?off' = "off + length (c # cs) - length rest"
    from s have len: "length (c # cs) = length (m0 ! 0) + length rest"
      by (simp add: m0)
    from 2(3) Some a have "(i, m) = (off, m0) \<or> (i, m) \<in> set (findAllAt ?off' rest)"
      by simp
    then show ?thesis
    proof
      assume "(i, m) = (off, m0)"
      with Some a s m0 show ?thesis by auto
    next
      assume "(i, m) \<in> set (findAllAt ?off' rest)"
      from 2(2) [OF Some a [symmetric] this]
      have IH0: "?off' \<le> i \<and> i + length (m ! 0) \<le> ?off' + length rest \<and>
        take (length (m ! 0)) (drop (i - ?off') rest) = m ! 0 \<and>
        (\<exists>r. match_here (drop (i - ?off') rest) = Some (m, r))" .
      define k where "k = off + length (m0 ! 0)"
      have "?off' = k" using len by (simp add: k_def)
      with IH0 have IH: "k \<le> i" "i + length (m ! 0) \<le> k + length rest"
        "take (length (m ! 0)) (drop (i - k) rest) = m ! 0"
        "\<exists>r. match_here (drop (i - k) rest) = Some (m, r)" by simp_all
      have d: "drop (i - off) (c # cs) = drop (i - k) rest"
      proof -
        have "c # cs = (m0 ! 0) @ rest" using s m0 by simp
        moreover have "i - off = length (m0 ! 0) + (i - k)" using IH(1) by (simp add: k_def)
        ultimately show ?thesis by (metis append_eq_conv_conj drop_drop add.commute)
      qed
      have "off \<le> i" using IH(1) by (simp add: k_def)
      moreover have "i + length (m ! 0) \<le> off + length (c # cs)"
        using IH(2) len by (simp add: k_def)
      ultimately show ?thesis using IH(3,4) d by simp
    qed
  qed
qed



lemma findAllAt_shape:
  assumes "(i, m) \<in> set (findAllAt off s)"
  shows "\<exists>q p q'. m = [q # CHR ''/'' # p @ [q'], [q], CHR ''/'' # p, [q']] \<and>
      is_quote q \<and> is_quote q' \<and> p \<noteq> [] \<and> class_string p"
  using findAllAt_bounds [OF assms] by (auto simp: match_here_Some)




lemmas extract_eval =
  extractEndpoints_def FindAllStringSubmatch_def FindAllStringSubmatchIndex_def
  match_here_def path_run.simps class_rune_def is_quote_def is_path_byte_def
  long_s_def kelvin_sign_def




text \<open>Scenario A of the specification.\<close>

lemma extract_scenario_A:
  \<open>extractEndpoints ''<script src="/api/v1/users?id=1"></script>'' = [''/api/v1/users?id=1'']\<close>
  by (simp add: extract_eval)

text \<open>
  Claim C4, as amended. A match attempt succeeds exactly on an input that starts with a
  quote character, a slash, a non-empty sequence of characters of the class and a quote
  character; every match that \<open>FindAllStringSubmatch\<close> reports is such a substring of the
  body. The two quote characters are independent: the closing quote need not equal the
  opening one. The characters of the class are those of
  \<^verbatim>\<open>[a-zA-Z0-9_?%&=\/\-\#\.\(\)]\<close> and, by case folding, U+017F and U+212A.
\<close>

theorem pattern_match_shape:
  "(match_here s = Some (m, rest) \<longleftrightarrow>
     (\<exists>q p q'. s = q # CHR ''/'' # p @ q' # rest \<and>
        m = [q # CHR ''/'' # p @ [q'], [q], CHR ''/'' # p, [q']] \<and>
        is_quote q \<and> is_quote q' \<and> p \<noteq> [] \<and> class_string p)) \<and>
   ((i, m) \<in> set (FindAllStringSubmatchIndex body) \<longrightarrow>
     occurs_at body i (m ! 0) \<and>
     (\<exists>q p q'. m = [q # CHR ''/'' # p @ [q'], [q], CHR ''/'' # p, [q']] \<and>
        is_quote q \<and> is_quote q' \<and> p \<noteq> [] \<and> class_string p))"
proof (intro conjI impI)
  show "match_here s = Some (m, rest) \<longleftrightarrow>
     (\<exists>q p q'. s = q # CHR ''/'' # p @ q' # rest \<and>
        m = [q # CHR ''/'' # p @ [q'], [q], CHR ''/'' # p, [q']] \<and>
        is_quote q \<and> is_quote q' \<and> p \<noteq> [] \<and> class_string p)"
    by (rule match_here_Some)
next
  assume im: "(i, m) \<in> set (FindAllStringSubmatchIndex body)"
  then show "occurs_at body i (m ! 0)"
    using findAllAt_bounds [of i m 0 body]
    by (simp add: FindAllStringSubmatchIndex_def occurs_at_def)
  from im show "\<exists>q p q'. m = [q # CHR ''/'' # p @ [q'], [q], CHR ''/'' # p, [q']] \<and>
        is_quote q \<and> is_quote q' \<and> p \<noteq> [] \<and> class_string p"
    unfolding FindAllStringSubmatchIndex_def by (rule findAllAt_shape)
qed

lemma mixed_quotes_index:
  "FindAllStringSubmatchIndex [CHR ''='', CHR 0x22, CHR ''/'', CHR ''a'', CHR 0x27] =
     [(1, [[CHR 0x22, CHR ''/'', CHR ''a'', CHR 0x27], [CHR 0x22], ''/a'', [CHR 0x27]])]"
  by (simp add: extract_eval)

theorem pattern_match_shape_witness:
  "(1, [[CHR 0x22, CHR ''/'', CHR ''a'', CHR 0x27], [CHR 0x22], ''/a'', [CHR 0x27]])
     \<in> set (FindAllStringSubmatchIndex [CHR ''='', CHR 0x22, CHR ''/'', CHR ''a'', CHR 0x27]) \<and>
   occurs_at [CHR ''='', CHR 0x22, CHR ''/'', CHR ''a'', CHR 0x27] 1
     [CHR 0x22, CHR ''/'', CHR ''a'', CHR 0x27] \<and>
   (\<exists>q p q'. [[CHR 0x22, CHR ''/'', CHR ''a'', CHR 0x27], [CHR 0x22], ''/a'', [CHR 0x27]] =
        [q # CHR ''/'' # p @ [q'], [q], CHR ''/'' # p, [q']] \<and>
        is_quote q \<and> is_quote q' \<and> p \<noteq> [] \<and> class_string p)"
  using pattern_match_shape [where i = 1
      and m = "[[CHR 0x22, CHR ''/'', CHR ''a'', CHR 0x27], [CHR 0x22], ''/a'', [CHR 0x27]]"
      and body = "[CHR ''='', CHR 0x22, CHR ''/'', CHR ''a'', CHR 0x27]"]
  by (simp add: mixed_quotes_index)

text \<open>
  Claim C4 as stated fails: a path opened by a double quote and closed by a single quote
  is matched and extracted.
\<close>

theorem mixed_quotes_counterexample:
  "extractEndpoints [CHR ''='', CHR 0x22, CHR ''/'', CHR ''a'', CHR 0x27] = [''/a''] \<and>
   FindAllStringSubmatch [CHR ''='', CHR 0x22, CHR ''/'', CHR ''a'', CHR 0x27] =
     [[[CHR 0x22, CHR ''/'', CHR ''a'', CHR 0x27], [CHR 0x22], ''/a'', [CHR 0x27]]] \<and>
   [CHR 0x22] \<noteq> [CHR 0x27]"
  by (simp add: extract_eval)

section \<open>Input selection\<close>

text \<open>
  \<open>strings.TrimSpace\<close> removes the leading and trailing characters with Unicode's White_Space
  property (\<open>unicode.IsSpace\<close>), reading the string as UTF-8. \<open>white_space\<close> lists the UTF-8
  encodings of those characters: U+0009 to U+000D, U+0020, U+0085, U+00A0, U+1680, U+2000 to
  U+200A, U+2028, U+2029, U+202F, U+205F and U+3000.
\<close>

definition white_space :: "string list" where
  "white_space =
     [[CHR 0x09], [CHR 0x0A], [CHR 0x0B], [CHR 0x0C], [CHR 0x0D], [CHR 0x20],
      [CHR 0xC2, CHR 0x85], [CHR 0xC2, CHR 0xA0],
      [CHR 0xE1, CHR 0x9A, CHR 0x80],
      [CHR 0xE2, CHR 0x80, CHR 0x80], [CHR 0xE2, CHR 0x80, CHR 0x81],
      [CHR 0xE2, CHR 0x80, CHR 0x82], [CHR 0xE2, CHR 0x80, CHR 0x83],
      [CHR 0xE2, CHR 0x80, CHR 0x84], [CHR 0xE2, CHR 0x80, CHR 0x85],
      [CHR 0xE2, CHR 0x80, CHR 0x86], [CHR 0xE2, CHR 0x80, CHR 0x87],
      [CHR 0xE2, CHR 0x80, CHR 0x88], [CHR 0xE2, CHR 0x80, CHR 0x89],
      [CHR 0xE2, CHR 0x80, CHR 0x8A],
      [CHR 0xE2, CHR 0x80, CHR 0xA8], [CHR 0xE2, CHR 0x80, CHR 0xA9],
      [CHR 0xE2, CHR 0x80, CHR 0xAF], [CHR 0xE2, CHR 0x81, CHR 0x9F],
      [CHR 0xE3, CHR 0x80, CHR 0x80]]"

text \<open>The white space character at the head of \<open>s\<close>, and the one at its end, if any.\<close>

definition leading_space :: "string \<Rightarrow> string option" where
  "leading_space s = find (\<lambda>e. take (length e) s = e) white_space"

definition trailing_space :: "string \<Rightarrow> string option" where
  "trailing_space s =
     find (\<lambda>e. length e \<le> length s \<and> drop (length s - length e) s = e) white_space"

lemma white_space_nonempty: "e \<in> set white_space \<Longrightarrow> e \<noteq> []"
  by (auto simp: white_space_def)

lemma leading_space_Some:
  "leading_space s = Some e \<Longrightarrow> e \<in> set white_space \<and> take (length e) s = e \<and> e \<noteq> []"
  by (auto simp: leading_space_def find_Some_iff white_space_nonempty)

lemma trailing_space_Some:
  "trailing_space s = Some e \<Longrightarrow>
     e \<in> set white_space \<and> length e \<le> length s \<and> drop (length s - length e) s = e \<and> e \<noteq> []"
  by (auto simp: trailing_space_def find_Some_iff white_space_nonempty)

function trimLeft :: "string \<Rightarrow> string" where
  "trimLeft s =
     (case leading_space s of None \<Rightarrow> s | Some e \<Rightarrow> trimLeft (drop (length e) s))"
  by pat_completeness auto
termination
proof (relation "measure length")
  show "wf (measure length)" by simp
next
  fix s e assume "leading_space s = Some e"
  then have "take (length e) s = e" "e \<noteq> []" by (simp_all add: leading_space_Some)
  then have "s \<noteq> []" by auto
  with \<open>e \<noteq> []\<close> show "(drop (length e) s, s) \<in> measure length" by simp
qed

function trimRight :: "string \<Rightarrow> string" where
  "trimRight s =
     (case trailing_space s of None \<Rightarrow> s | Some e \<Rightarrow> trimRight (take (length s - length e) s))"
  by pat_completeness auto
termination
proof (relation "measure length")
  show "wf (measure length)" by simp
next
  fix s e assume "trailing_space s = Some e"
  then have "length e \<le> length s" "e \<noteq> []" by (simp_all add: trailing_space_Some)
  then show "(take (length s - length e) s, s) \<in> measure length" by (cases e) auto
qed

declare trimLeft.simps [simp del] trimRight.simps [simp del]

definition TrimSpace :: "string \<Rightarrow> string" where
  "TrimSpace s = trimRight (trimLeft s)"

lemma trimLeft_no_leading: "leading_space (trimLeft s) = None"
proof (induction s rule: trimLeft.induct)
  case (1 s)
  then show ?case
    by (cases "leading_space s") (simp_all add: trimLeft.simps [of s])
qed

lemma trimRight_no_trailing: "trailing_space (trimRight s) = None"
proof (induction s rule: trimRight.induct)
  case (1 s)
  then show ?case
    by (cases "trailing_space s") (simp_all add: trimRight.simps [of s])
qed

lemma leading_space_take:
  assumes "leading_space s = None"
  shows "leading_space (take k s) = None"
proof (rule ccontr)
  assume "leading_space (take k s) \<noteq> None"
  then obtain e where "leading_space (take k s) = Some e" by auto
  from leading_space_Some [OF this]
  have e: "e \<in> set white_space" and t: "take (length e) (take k s) = e" by blast+
  from t have "length (take (length e) (take k s)) = length e" by (rule arg_cong)
  then have "length e \<le> k" by simp
  with t have "take (length e) s = e" by (simp add: min_absorb1)
  with e assms show False by (auto simp: leading_space_def find_None_iff)
qed

lemma trimRight_no_leading: "leading_space s = None \<Longrightarrow> leading_space (trimRight s) = None"
proof (induction s rule: trimRight.induct)
  case (1 s)
  show ?case
  proof (cases "trailing_space s")
    case None
    with 1(2) show ?thesis by (simp add: trimRight.simps [of s])
  next
    case (Some e)
    from 1(1) [OF Some leading_space_take [OF 1(2)]] Some
    show ?thesis by (simp add: trimRight.simps [of s])
  qed
qed

lemma TrimSpace_trimmed:
  "leading_space (TrimSpace s) = None \<and> trailing_space (TrimSpace s) = None"
  by (simp add: TrimSpace_def trimRight_no_trailing trimRight_no_leading trimLeft_no_leading)

lemma TrimSpace_example_ascii: "TrimSpace '' http://a/b  '' = ''http://a/b''"
  by (simp add: TrimSpace_def trimLeft.simps trimRight.simps leading_space_def trailing_space_def white_space_def)

lemma TrimSpace_example_unicode: "TrimSpace [CHR 0xC2, CHR 0xA0, CHR ''a'', CHR 0xE3, CHR 0x80, CHR 0x80, CHR 0x09] = ''a''"
  by (simp add: TrimSpace_def trimLeft.simps trimRight.simps leading_space_def trailing_space_def white_space_def)

lemma leading_space_all: "list_all (\<lambda>e. \<forall>r. leading_space (e @ r) = Some e) white_space"
  unfolding white_space_def leading_space_def by simp

lemma trailing_space_all: "list_all (\<lambda>e. \<forall>r. trailing_space (r @ e) = Some e) white_space"
  unfolding white_space_def trailing_space_def by simp

lemma leading_space_ws: "e \<in> set white_space \<Longrightarrow> leading_space (e @ r) = Some e"
  using leading_space_all by (simp add: list_all_iff)

lemma trailing_space_ws: "e \<in> set white_space \<Longrightarrow> trailing_space (r @ e) = Some e"
  using trailing_space_all by (simp add: list_all_iff)

definition all_space :: "string \<Rightarrow> bool" where
  "all_space s \<longleftrightarrow> (\<exists>ws. s = concat ws \<and> list_all (\<lambda>e. e \<in> set white_space) ws)"

lemma trimLeft_spaces:
  "list_all (\<lambda>e. e \<in> set white_space) ws \<Longrightarrow> trimLeft (concat ws @ r) = trimLeft r"
proof (induction ws)
  case Nil
  then show ?case by simp
next
  case (Cons e ws)
  then have "leading_space (e @ concat ws @ r) = Some e" by (simp add: leading_space_ws)
  with Cons show ?case by (simp add: trimLeft.simps [of "e @ concat ws @ r"])
qed

lemma trimRight_spaces:
  "list_all (\<lambda>e. e \<in> set white_space) ws \<Longrightarrow> trimRight (r @ concat ws) = trimRight r"
proof (induction ws rule: rev_induct)
  case Nil
  then show ?case by simp
next
  case (snoc e ws)
  then have e: "e \<in> set white_space" by simp
  have "trailing_space ((r @ concat ws) @ e) = Some e" using e by (rule trailing_space_ws)
  with snoc show ?case by (simp add: trimRight.simps [of "r @ concat ws @ e"])
qed

lemma trimLeft_decomp:
  "\<exists>ws. list_all (\<lambda>e. e \<in> set white_space) ws \<and> s = concat ws @ trimLeft s"
proof (induction s rule: trimLeft.induct)
  case (1 s)
  show ?case
  proof (cases "leading_space s")
    case None
    then have "trimLeft s = s" by (simp add: trimLeft.simps [of s])
    then have "list_all (\<lambda>e. e \<in> set white_space) [] \<and> s = concat [] @ trimLeft s" by simp
    then show ?thesis by blast
  next
    case (Some e)
    from 1 [OF Some] obtain ws where ws: "list_all (\<lambda>e. e \<in> set white_space) ws"
      "drop (length e) s = concat ws @ trimLeft (drop (length e) s)" by blast
    from leading_space_Some [OF Some] have e: "e \<in> set white_space" "take (length e) s = e"
      by simp_all
    have "s = e @ drop (length e) s" using e(2) by (metis append_take_drop_id)
    with ws(2) have "s = concat (e # ws) @ trimLeft (drop (length e) s)" by simp
    moreover have "trimLeft s = trimLeft (drop (length e) s)"
      using Some by (simp add: trimLeft.simps [of s])
    ultimately have "list_all (\<lambda>e. e \<in> set white_space) (e # ws) \<and> s = concat (e # ws) @ trimLeft s"
      using ws(1) e(1) by simp
    then show ?thesis by blast
  qed
qed

lemma trimRight_decomp:
  "\<exists>ws. list_all (\<lambda>e. e \<in> set white_space) ws \<and> s = trimRight s @ concat ws"
proof (induction s rule: trimRight.induct)
  case (1 s)
  show ?case
  proof (cases "trailing_space s")
    case None
    then have "trimRight s = s" by (simp add: trimRight.simps [of s])
    then have "list_all (\<lambda>e. e \<in> set white_space) [] \<and> s = trimRight s @ concat []" by simp
    then show ?thesis by blast
  next
    case (Some e)
    define t where "t = take (length s - length e) s"
    from 1 [OF Some] obtain ws where ws: "list_all (\<lambda>e. e \<in> set white_space) ws"
      "t = trimRight t @ concat ws" unfolding t_def by blast
    from trailing_space_Some [OF Some] have e: "e \<in> set white_space"
      "drop (length s - length e) s = e" by simp_all
    have st: "s = t @ e" unfolding t_def using e(2) by (metis append_take_drop_id)
    from ws(2) have "t @ e = (trimRight t @ concat ws) @ e" by simp
    then have "s = trimRight t @ concat (ws @ [e])" unfolding st by simp
    moreover have "trimRight s = trimRight t"
      using Some by (simp add: trimRight.simps [of s] t_def)
    ultimately have "list_all (\<lambda>e. e \<in> set white_space) (ws @ [e]) \<and> s = trimRight s @ concat (ws @ [e])"
      using ws(1) e(1) by simp
    then show ?thesis by blast
  qed
qed

lemma TrimSpace_decomp:
  "\<exists>ws ws'. list_all (\<lambda>e. e \<in> set white_space) ws \<and> list_all (\<lambda>e. e \<in> set white_space) ws' \<and>
     s = concat ws @ TrimSpace s @ concat ws'"
proof -
  obtain ws where ws: "list_all (\<lambda>e. e \<in> set white_space) ws" "s = concat ws @ trimLeft s"
    using trimLeft_decomp by blast
  obtain ws' where ws': "list_all (\<lambda>e. e \<in> set white_space) ws'"
    "trimLeft s = trimRight (trimLeft s) @ concat ws'"
    using trimRight_decomp by blast
  from ws(2) ws'(2) have "s = concat ws @ TrimSpace s @ concat ws'"
    by (simp add: TrimSpace_def)
  with ws(1) ws'(1) show ?thesis by blast
qed

lemma TrimSpace_empty_iff: "TrimSpace s = [] \<longleftrightarrow> all_space s"
proof
  assume e: "TrimSpace s = []"
  from TrimSpace_decomp [of s] obtain ws ws' where
    "list_all (\<lambda>e. e \<in> set white_space) ws" "list_all (\<lambda>e. e \<in> set white_space) ws'"
    "s = concat ws @ TrimSpace s @ concat ws'" by blast
  with e have "s = concat (ws @ ws') \<and> list_all (\<lambda>e. e \<in> set white_space) (ws @ ws')" by simp
  then show "all_space s" unfolding all_space_def by blast
next
  assume "all_space s"
  then obtain ws where "s = concat ws" "list_all (\<lambda>e. e \<in> set white_space) ws"
    by (auto simp: all_space_def)
  then have "trimLeft s = trimLeft []" using trimLeft_spaces [of ws "[]"] by simp
  also have "\<dots> = []" by (simp add: trimLeft.simps [of "[]"] leading_space_def white_space_def)
  finally show "TrimSpace s = []"
    by (simp add: TrimSpace_def trimRight.simps [of "[]"] trailing_space_def white_space_def)
qed

record flags =
  targetURL :: string
  urlList :: string
  outputFile :: string
  threads :: int
  resolve :: bool
  quiet :: bool
  noColor :: bool

datatype stdin_kind = CharDevice | PipeOrFile

datatype http_outcome = RequestNotCreated | RequestFailed | Response int "string option"

record 'u world =
  open_lines :: "string \<Rightarrow> string list option"
  stdin_stat :: "stdin_kind option"
  stdin_lines :: "string list"
  http_get :: "string \<Rightarrow> http_outcome"
  url_Parse :: "string \<Rightarrow> 'u option"
  url_ResolveReference :: "'u \<Rightarrow> 'u \<Rightarrow> 'u"
  url_String :: "'u \<Rightarrow> string"
  range_keys :: "string set \<Rightarrow> string list"
  create_file :: "string \<Rightarrow> bool"

datatype fetch_error =
  CouldNotCreateRequest | HttpRequestFailed | BadStatusCode int | CouldNotReadBody

definition fetchAndFindLinks :: "'u world \<Rightarrow> string \<Rightarrow> fetch_error + string list" where
  "fetchAndFindLinks w url =
     (case http_get w url of
        RequestNotCreated \<Rightarrow> Inl CouldNotCreateRequest
      | RequestFailed \<Rightarrow> Inl HttpRequestFailed
      | Response StatusCode body \<Rightarrow>
          if StatusCode \<noteq> 200 then Inl (BadStatusCode StatusCode)
          else (case body of
                  None \<Rightarrow> Inl CouldNotReadBody
                | Some b \<Rightarrow> Inr (extractEndpoints b)))"

record linkFinderResult =
  sourceURL :: string
  endpoints :: "string list"
  err :: "fetch_error option"

definition worker_job :: "'u world \<Rightarrow> string \<Rightarrow> linkFinderResult" where
  "worker_job w url =
     (case fetchAndFindLinks w url of
        Inl e \<Rightarrow> \<lparr>sourceURL = url, endpoints = [], err = Some e\<rparr>
      | Inr es \<Rightarrow> \<lparr>sourceURL = url, endpoints = es, err = None\<rparr>)"

datatype line =
  ScanningLine nat int
  | ScanErrorLine string fetch_error
  | FoundInLine string
  | EndpointLine string
  | PlainLine string
  | SavingLine nat string
  | CreateErrorLine
  | DoneLine nat

record aggregator =
  allFoundEndpoints :: "string set"
  finalEndpointsLock :: bool
  stdout :: "line list"
  stderr :: "line list"

definition Lock :: "aggregator \<Rightarrow> aggregator option" where
  "Lock a = (if finalEndpointsLock a then None else Some (a\<lparr>finalEndpointsLock := True\<rparr>))"

definition Unlock :: "aggregator \<Rightarrow> aggregator option" where
  "Unlock a = (if finalEndpointsLock a then Some (a\<lparr>finalEndpointsLock := False\<rparr>) else None)"

definition check_insert :: "bool \<Rightarrow> string \<Rightarrow> aggregator \<Rightarrow> aggregator" where
  "check_insert q finalLink a =
     (if finalLink \<notin> allFoundEndpoints a then
        a\<lparr>allFoundEndpoints := insert finalLink (allFoundEndpoints a),
          stdout := stdout a @ (if q then [] else [EndpointLine finalLink])\<rparr>
      else a)"

definition add_endpoint :: "bool \<Rightarrow> string \<Rightarrow> aggregator \<Rightarrow> aggregator option" where
  "add_endpoint q finalLink a =
     (case Lock a of None \<Rightarrow> None | Some a1 \<Rightarrow> Unlock (check_insert q finalLink a1))"

definition final_link :: "'u world \<Rightarrow> bool \<Rightarrow> 'u option \<Rightarrow> string \<Rightarrow> string" where
  "final_link w rslv baseURL link =
     (case baseURL of
        None \<Rightarrow> link
      | Some base \<Rightarrow>
          if rslv then
            (case url_Parse w link of
               None \<Rightarrow> link
             | Some relURL \<Rightarrow> url_String w (url_ResolveReference w base relURL))
          else link)"

fun add_links ::
  "'u world \<Rightarrow> bool \<Rightarrow> bool \<Rightarrow> 'u option \<Rightarrow> string list \<Rightarrow> aggregator \<Rightarrow> aggregator option" where
  "add_links w rslv q baseURL [] a = Some a"
| "add_links w rslv q baseURL (link # links) a =
     (case add_endpoint q (final_link w rslv baseURL link) a of
        None \<Rightarrow> None
      | Some a' \<Rightarrow> add_links w rslv q baseURL links a')"

definition process_result ::
  "'u world \<Rightarrow> flags \<Rightarrow> linkFinderResult \<Rightarrow> aggregator \<Rightarrow> aggregator option" where
  "process_result w fl res a =
     (case err res of
        Some e \<Rightarrow>
          Some (if quiet fl then a
                else a\<lparr>stderr := stderr a @ [ScanErrorLine (sourceURL res) e]\<rparr>)
      | None \<Rightarrow>
          if endpoints res = [] then Some a
          else add_links w (resolve fl) (quiet fl) (url_Parse w (sourceURL res)) (endpoints res)
                 (if quiet fl then a
                  else a\<lparr>stdout := stdout a @ [FoundInLine (sourceURL res)]\<rparr>))"

text \<open>The endpoints of \<open>es\<close> in the order of their first occurrence, each once.\<close>

definition first_occurrences :: "string list \<Rightarrow> string list" where
  "first_occurrences es = rev (remdups (rev es))"

lemma first_occurrences_Cons:
  "first_occurrences (e # es) = e # filter (\<lambda>x. x \<noteq> e) (first_occurrences es)"
proof -
  have "remdups (xs @ [e]) = filter (\<lambda>x. x \<noteq> e) (remdups xs) @ [e]" for xs :: "string list"
    by (induction xs) auto
  then show ?thesis by (simp add: first_occurrences_def rev_filter)
qed

lemma first_occurrences_set: "set (first_occurrences es) = set es"
  by (simp add: first_occurrences_def)

lemma first_occurrences_distinct: "distinct (first_occurrences es)"
  by (simp add: first_occurrences_def)

lemma add_endpoint_unlocked:
  "\<not> finalEndpointsLock a \<Longrightarrow>
     add_endpoint q e a =
       Some (if e \<in> allFoundEndpoints a then a
             else a\<lparr>allFoundEndpoints := insert e (allFoundEndpoints a),
                    stdout := stdout a @ (if q then [] else [EndpointLine e])\<rparr>)"
  by (simp add: add_endpoint_def Lock_def Unlock_def check_insert_def)

lemma add_links_unlocked:
  "\<not> finalEndpointsLock a \<Longrightarrow>
     \<exists>a'. add_links w rslv q baseURL links a = Some a' \<and>
       allFoundEndpoints a' = allFoundEndpoints a \<union> final_link w rslv baseURL ` set links \<and>
       \<not> finalEndpointsLock a' \<and>
       stderr a' = stderr a \<and>
       stdout a' = stdout a @
         (if q then []
          else map EndpointLine
                 (filter (\<lambda>e. e \<notin> allFoundEndpoints a)
                    (first_occurrences (map (final_link w rslv baseURL) links))))"
proof (induction links arbitrary: a)
  case Nil
  then show ?case by (simp add: first_occurrences_def)
next
  case (Cons link links)
  let ?e = "final_link w rslv baseURL link"
  let ?a1 = "if ?e \<in> allFoundEndpoints a then a
             else a\<lparr>allFoundEndpoints := insert ?e (allFoundEndpoints a),
                    stdout := stdout a @ (if q then [] else [EndpointLine ?e])\<rparr>"
  have step: "add_endpoint q ?e a = Some ?a1" using Cons.prems by (rule add_endpoint_unlocked)
  have "\<not> finalEndpointsLock ?a1" using Cons.prems by simp
  from Cons.IH [OF this] obtain a' where a':
    "add_links w rslv q baseURL links ?a1 = Some a'"
    "allFoundEndpoints a' = allFoundEndpoints ?a1 \<union> final_link w rslv baseURL ` set links"
    "\<not> finalEndpointsLock a'" "stderr a' = stderr ?a1"
    "stdout a' = stdout ?a1 @
         (if q then []
          else map EndpointLine
                 (filter (\<lambda>e. e \<notin> allFoundEndpoints ?a1)
                    (first_occurrences (map (final_link w rslv baseURL) links))))"
    by blast
  have 1: "add_links w rslv q baseURL (link # links) a = Some a'"
    using step a'(1) by simp
  have 2: "allFoundEndpoints a' = allFoundEndpoints a \<union> final_link w rslv baseURL ` set (link # links)"
    using a'(2) by auto
  have 3: "stderr a' = stderr a" using a'(4) by simp
  have 4: "stdout a' = stdout a @
         (if q then []
          else map EndpointLine
                 (filter (\<lambda>e. e \<notin> allFoundEndpoints a)
                    (first_occurrences (map (final_link w rslv baseURL) (link # links)))))"
  proof (cases "?e \<in> allFoundEndpoints a")
    case True
    then have "filter (\<lambda>e. e \<notin> allFoundEndpoints a) (filter (\<lambda>x. x \<noteq> ?e) xs) =
        filter (\<lambda>e. e \<notin> allFoundEndpoints a) xs" for xs
      by (induction xs) auto
    with True a'(5) show ?thesis by (simp add: first_occurrences_Cons)
  next
    case False
    have "filter (\<lambda>e. e \<notin> insert ?e (allFoundEndpoints a)) xs =
        filter (\<lambda>e. e \<notin> allFoundEndpoints a) (filter (\<lambda>x. x \<noteq> ?e) xs)" for xs
      by (induction xs) auto
    with False a'(5) show ?thesis by (simp add: first_occurrences_Cons)
  qed
  from 1 2 3 4 a'(3) show ?case by blast
qed

datatype wstate = WRecv | WFetch string | WSend linkFinderResult | WExit

datatype mstate = MSend | MRecv nat | MWait | MExit int

datatype tid = Main | Worker nat

record pipeline =
  urlsToScan :: "string list"
  to_send :: "string list"
  jobs :: "string list"
  jobs_closed :: bool
  results :: "linkFinderResult list"
  workers :: "wstate list"
  mainpc :: mstate
  agg :: aggregator
  sortedEndpoints :: "string list"
  saved :: "string list option"
  emitted :: "linkFinderResult list"
  received :: "linkFinderResult list"

definition init_pipeline :: "flags \<Rightarrow> string list \<Rightarrow> pipeline" where
  "init_pipeline fl urls =
     \<lparr>urlsToScan = urls, to_send = urls, jobs = [], jobs_closed = False, results = [],
      workers = replicate (nat (threads fl)) WRecv, mainpc = MSend,
      agg = \<lparr>allFoundEndpoints = {}, finalEndpointsLock = False, stdout = [], stderr = []\<rparr>,
      sortedEndpoints = [], saved = None, emitted = [], received = []\<rparr>"

definition worker_step :: "'u world \<Rightarrow> nat \<Rightarrow> pipeline \<Rightarrow> pipeline option" where
  "worker_step w i s =
     (if i < length (workers s) then
        (case workers s ! i of
           WRecv \<Rightarrow>
             (case jobs s of
                url # rest \<Rightarrow> Some (s\<lparr>jobs := rest, workers := (workers s)[i := WFetch url]\<rparr>)
              | [] \<Rightarrow>
                  if jobs_closed s then Some (s\<lparr>workers := (workers s)[i := WExit]\<rparr>)
                  else None)
         | WFetch url \<Rightarrow> Some (s\<lparr>workers := (workers s)[i := WSend (worker_job w url)]\<rparr>)
         | WSend r \<Rightarrow>
             if length (results s) < length (urlsToScan s) then
               Some (s\<lparr>results := results s @ [r], emitted := emitted s @ [r],
                       workers := (workers s)[i := WRecv]\<rparr>)
             else None
         | WExit \<Rightarrow> None)
      else None)"

definition say :: "bool \<Rightarrow> line list \<Rightarrow> aggregator \<Rightarrow> aggregator" where
  "say q ls a = (if q then a else a\<lparr>stdout := stdout a @ ls\<rparr>)"

definition finalize :: "'u world \<Rightarrow> flags \<Rightarrow> pipeline \<Rightarrow> pipeline" where
  "finalize w fl s =
     (let sorted = sort (range_keys w (allFoundEndpoints (agg s)));
          a1 = (if quiet fl then (agg s)\<lparr>stdout := stdout (agg s) @ map PlainLine sorted\<rparr>
                else agg s)
      in if outputFile fl \<noteq> [] then
           (let a2 = say (quiet fl) [SavingLine (length sorted) (outputFile fl)] a1
            in if create_file w (outputFile fl) then
                 s\<lparr>sortedEndpoints := sorted, saved := Some sorted,
                   agg := say (quiet fl) [DoneLine (length sorted)] a2, mainpc := MExit 0\<rparr>
               else
                 s\<lparr>sortedEndpoints := sorted,
                   agg := a2\<lparr>stderr := stderr a2 @ [CreateErrorLine]\<rparr>, mainpc := MExit 1\<rparr>)
         else
           s\<lparr>sortedEndpoints := sorted,
             agg := say (quiet fl) [DoneLine (length sorted)] a1, mainpc := MExit 0\<rparr>)"

definition main_step :: "'u world \<Rightarrow> flags \<Rightarrow> pipeline \<Rightarrow> pipeline option" where
  "main_step w fl s =
     (case mainpc s of
        MSend \<Rightarrow>
          (case to_send s of
             url # rest \<Rightarrow>
               if length (jobs s) < length (urlsToScan s) then
                 Some (s\<lparr>jobs := jobs s @ [url], to_send := rest\<rparr>)
               else None
           | [] \<Rightarrow>
               Some (s\<lparr>jobs_closed := True, mainpc := MRecv 0,
                       agg := say (quiet fl)
                                [ScanningLine (length (urlsToScan s)) (threads fl)] (agg s)\<rparr>))
      | MRecv i \<Rightarrow>
          if i < length (urlsToScan s) then
            (case results s of
               res # rest \<Rightarrow>
                 (case process_result w fl res (agg s) of
                    None \<Rightarrow> None
                  | Some a \<Rightarrow>
                      Some (s\<lparr>results := rest, received := received s @ [res], agg := a,
                              mainpc := MRecv (Suc i)\<rparr>))
             | [] \<Rightarrow> None)
          else Some (s\<lparr>mainpc := MWait\<rparr>)
      | MWait \<Rightarrow>
          if list_all (\<lambda>x. x = WExit) (workers s) then Some (finalize w fl s) else None
      | MExit code \<Rightarrow> None)"

definition step :: "'u world \<Rightarrow> flags \<Rightarrow> tid \<Rightarrow> pipeline \<Rightarrow> pipeline option" where
  "step w fl t s = (case t of Main \<Rightarrow> main_step w fl s | Worker i \<Rightarrow> worker_step w i s)"

fun run :: "'u world \<Rightarrow> flags \<Rightarrow> tid list \<Rightarrow> pipeline \<Rightarrow> pipeline" where
  "run w fl [] s = s"
| "run w fl (t # ts) s =
     (case step w fl t s of None \<Rightarrow> run w fl ts s | Some s' \<Rightarrow> run w fl ts s')"

fun in_flight :: "wstate \<Rightarrow> string multiset" where
  "in_flight (WFetch url) = {#url#}"
| "in_flight (WSend r) = {#sourceURL r#}"
| "in_flight WRecv = {#}"
| "in_flight WExit = {#}"

definition links_of :: "'u world \<Rightarrow> flags \<Rightarrow> linkFinderResult \<Rightarrow> string set" where
  "links_of w fl r =
     (case err r of
        Some e \<Rightarrow> {}
      | None \<Rightarrow> final_link w (resolve fl) (url_Parse w (sourceURL r)) ` set (endpoints r))"

definition exit_code :: "'u world \<Rightarrow> flags \<Rightarrow> int" where
  "exit_code w fl = (if outputFile fl \<noteq> [] \<and> \<not> create_file w (outputFile fl) then 1 else 0)"

definition pipeline_inv :: "'u world \<Rightarrow> flags \<Rightarrow> pipeline \<Rightarrow> bool" where
  "pipeline_inv w fl s \<longleftrightarrow>
     mset (to_send s) + mset (jobs s) + sum_list (map in_flight (workers s)) +
       mset (map sourceURL (results s)) + mset (map sourceURL (received s)) =
       mset (urlsToScan s) \<and>
     emitted s = received s @ results s \<and>
     list_all (\<lambda>r. r = worker_job w (sourceURL r)) (emitted s) \<and>
     list_all (\<lambda>x. case x of WSend r \<Rightarrow> r = worker_job w (sourceURL r) | _ \<Rightarrow> True) (workers s) \<and>
     (mainpc s = MSend \<longrightarrow> \<not> jobs_closed s \<and> received s = []) \<and>
     (mainpc s \<noteq> MSend \<longrightarrow> to_send s = [] \<and> jobs_closed s) \<and>
     (case mainpc s of
        MSend \<Rightarrow> True
      | MRecv i \<Rightarrow> i = length (received s)
      | MWait \<Rightarrow> length (received s) = length (urlsToScan s)
      | MExit code \<Rightarrow>
          length (received s) = length (urlsToScan s) \<and>
          list_all (\<lambda>x. x = WExit) (workers s) \<and>
          sortedEndpoints s = sort (range_keys w (allFoundEndpoints (agg s))) \<and>
          code = exit_code w fl) \<and>
     (WExit \<in> set (workers s) \<longrightarrow> jobs s = [] \<and> jobs_closed s) \<and>
     \<not> finalEndpointsLock (agg s) \<and>
     allFoundEndpoints (agg s) = (\<Union>r \<in> set (received s). links_of w fl r) \<and>
     length (workers s) = nat (threads fl)"

lemma sum_list_map_update:
  fixes f :: "'a \<Rightarrow> 'b::comm_monoid_add"
  shows "i < length xs \<Longrightarrow>
    sum_list (map f (xs[i := x])) + f (xs ! i) = sum_list (map f xs) + f x"
proof (induction xs arbitrary: i)
  case Nil
  then show ?case by simp
next
  case (Cons a xs)
  show ?case
  proof (cases i)
    case 0
    then show ?thesis by (simp add: ac_simps)
  next
    case (Suc j)
    with Cons.prems have "j < length xs" by simp
    from Cons.IH [OF this] Suc show ?thesis
      by (simp add: ac_simps)
  qed
qed

lemma process_result_unlocked:
  assumes "\<not> finalEndpointsLock a"
  shows "\<exists>a'. process_result w fl res a = Some a' \<and>
     allFoundEndpoints a' = allFoundEndpoints a \<union> links_of w fl res \<and>
     \<not> finalEndpointsLock a'"
proof (cases "err res")
  case (Some e)
  with assms show ?thesis by (simp add: process_result_def links_of_def)
next
  case None
  show ?thesis
  proof (cases "endpoints res = []")
    case True
    with None assms show ?thesis by (simp add: process_result_def links_of_def)
  next
    case False
    let ?a = "if quiet fl then a else a\<lparr>stdout := stdout a @ [FoundInLine (sourceURL res)]\<rparr>"
    have "\<not> finalEndpointsLock ?a" using assms by simp
    from add_links_unlocked [OF this, of w "resolve fl" "quiet fl" "url_Parse w (sourceURL res)" "endpoints res"]
    obtain a' where "add_links w (resolve fl) (quiet fl) (url_Parse w (sourceURL res)) (endpoints res) ?a = Some a'"
      "allFoundEndpoints a' = allFoundEndpoints ?a \<union>
         final_link w (resolve fl) (url_Parse w (sourceURL res)) ` set (endpoints res)"
      "\<not> finalEndpointsLock a'" by blast
    with None False show ?thesis by (simp add: process_result_def links_of_def)
  qed
qed

lemma list_all_update: "list_all P xs \<Longrightarrow> P x \<Longrightarrow> list_all P (xs[i := x])"
  using set_update_subset_insert [of xs i x] by (auto simp: list_all_iff)

lemma WExit_update: "WExit \<in> set (xs[i := x]) \<Longrightarrow> x \<noteq> WExit \<Longrightarrow> WExit \<in> set xs"
  using set_update_subset_insert [of xs i x] by auto

lemma inv_worker:
  assumes inv: "pipeline_inv w fl s" and st: "worker_step w i s = Some s'"
  shows "pipeline_inv w fl s'"
proof -
  from st have i: "i < length (workers s)" by (simp add: worker_step_def split: if_splits)
  note upd = sum_list_map_update [OF i, of in_flight]
  from i have mem: "workers s ! i \<in> set (workers s)" by simp
  have notexit: "mainpc s \<noteq> MExit c" if "workers s ! i \<noteq> WExit" for c
    using inv that mem by (auto simp: pipeline_inv_def list_all_iff)
  show ?thesis
  proof (cases "workers s ! i")
    case WRecv
    show ?thesis
    proof (cases "jobs s")
      case Nil
      with st i WRecv have c: "jobs_closed s" and s': "s' = s\<lparr>workers := (workers s)[i := WExit]\<rparr>"
        by (auto simp: worker_step_def split: if_splits)
      from upd [of WExit] WRecv
      have "sum_list (map in_flight ((workers s)[i := WExit])) = sum_list (map in_flight (workers s))"
        by simp
      with inv Nil c notexit WRecv show ?thesis unfolding s' pipeline_inv_def
        by (auto simp: list_all_update split: mstate.splits)
    next
      case (Cons url rest)
      with st i WRecv have s': "s' = s\<lparr>jobs := rest, workers := (workers s)[i := WFetch url]\<rparr>"
        by (auto simp: worker_step_def)
      from upd [of "WFetch url"] WRecv
      have "sum_list (map in_flight ((workers s)[i := WFetch url])) =
          sum_list (map in_flight (workers s)) + {#url#}"
        by simp
      moreover from inv Cons have "WExit \<notin> set (workers s)" by (auto simp: pipeline_inv_def)
      then have "WExit \<notin> set ((workers s)[i := WFetch url])"
        using WExit_update [of "workers s" i "WFetch url"] by auto
      ultimately show ?thesis using inv Cons notexit WRecv unfolding s' pipeline_inv_def
        by (auto simp: list_all_update split: mstate.splits)
    qed
  next
    case (WFetch url)
    with st i have s': "s' = s\<lparr>workers := (workers s)[i := WSend (worker_job w url)]\<rparr>"
      by (auto simp: worker_step_def)
    have src: "sourceURL (worker_job w url) = url"
      by (simp add: worker_job_def split: sum.splits)
    from upd [of "WSend (worker_job w url)"] WFetch src
    have "sum_list (map in_flight ((workers s)[i := WSend (worker_job w url)])) =
          sum_list (map in_flight (workers s))"
      by simp
    moreover have "WExit \<in> set ((workers s)[i := WSend (worker_job w url)]) \<Longrightarrow> WExit \<in> set (workers s)"
      using WExit_update [of "workers s" i "WSend (worker_job w url)"] by auto
    ultimately show ?thesis using inv notexit WFetch src unfolding s' pipeline_inv_def
      by (auto simp: list_all_update split: mstate.splits)
  next
    case (WSend r)
    with st i have s': "s' = s\<lparr>results := results s @ [r], emitted := emitted s @ [r],
                       workers := (workers s)[i := WRecv]\<rparr>"
      by (auto simp: worker_step_def split: if_splits)
    from upd [of WRecv] WSend
    have "sum_list (map in_flight (workers s)) =
          sum_list (map in_flight ((workers s)[i := WRecv])) + {#sourceURL r#}"
      by simp
    moreover have "WExit \<in> set ((workers s)[i := WRecv]) \<Longrightarrow> WExit \<in> set (workers s)"
      using WExit_update [of "workers s" i WRecv] by auto
    moreover from inv mem WSend have "r = worker_job w (sourceURL r)"
      by (auto simp: pipeline_inv_def list_all_iff)
    ultimately show ?thesis using inv notexit WSend unfolding s' pipeline_inv_def
      by (auto simp: list_all_update split: mstate.splits)
  next
    case WExit
    with st i show ?thesis by (simp add: worker_step_def)
  qed
qed

lemma say_simps [simp]:
  "allFoundEndpoints (say q ls a) = allFoundEndpoints a"
  "finalEndpointsLock (say q ls a) = finalEndpointsLock a"
  "stderr (say q ls a) = stderr a"
  by (simp_all add: say_def)

lemma finalize_fields:
  "urlsToScan (finalize w fl s) = urlsToScan s"
  "to_send (finalize w fl s) = to_send s"
  "jobs (finalize w fl s) = jobs s"
  "jobs_closed (finalize w fl s) = jobs_closed s"
  "results (finalize w fl s) = results s"
  "workers (finalize w fl s) = workers s"
  "emitted (finalize w fl s) = emitted s"
  "received (finalize w fl s) = received s"
  "mainpc (finalize w fl s) = MExit (exit_code w fl)"
  "sortedEndpoints (finalize w fl s) = sort (range_keys w (allFoundEndpoints (agg s)))"
  "allFoundEndpoints (agg (finalize w fl s)) = allFoundEndpoints (agg s)"
  "finalEndpointsLock (agg (finalize w fl s)) = finalEndpointsLock (agg s)"
  by (simp_all add: finalize_def exit_code_def Let_def)

lemma inv_received_le:
  assumes "pipeline_inv w fl s"
  shows "length (to_send s) + length (jobs s) + size (sum_list (map in_flight (workers s))) +
     length (results s) + length (received s) = length (urlsToScan s)"
proof -
  from assms have "mset (to_send s) + mset (jobs s) + sum_list (map in_flight (workers s)) +
       mset (map sourceURL (results s)) + mset (map sourceURL (received s)) =
       mset (urlsToScan s)" by (simp add: pipeline_inv_def)
  then have "size (mset (to_send s) + mset (jobs s) + sum_list (map in_flight (workers s)) +
       mset (map sourceURL (results s)) + mset (map sourceURL (received s))) =
       size (mset (urlsToScan s))" by (rule arg_cong)
  then show ?thesis by simp
qed

lemma inv_main:
  assumes inv: "pipeline_inv w fl s" and st: "main_step w fl s = Some s'"
  shows "pipeline_inv w fl s'"
proof (cases "mainpc s")
  case MSend
  show ?thesis
  proof (cases "to_send s")
    case Nil
    with st MSend have s': "s' = s\<lparr>jobs_closed := True, mainpc := MRecv 0,
        agg := say (quiet fl) [ScanningLine (length (urlsToScan s)) (threads fl)] (agg s)\<rparr>"
      by (simp add: main_step_def)
    from inv MSend Nil show ?thesis unfolding s' pipeline_inv_def by auto
  next
    case (Cons url rest)
    with st MSend have s': "s' = s\<lparr>jobs := jobs s @ [url], to_send := rest\<rparr>"
      by (simp add: main_step_def split: if_splits)
    from inv MSend Cons show ?thesis unfolding s' pipeline_inv_def by auto
  qed
next
  case (MRecv i)
  show ?thesis
  proof (cases "i < length (urlsToScan s)")
    case True
    with st MRecv obtain res rest a where r: "results s = res # rest"
      and p: "process_result w fl res (agg s) = Some a"
      and s': "s' = s\<lparr>results := rest, received := received s @ [res], agg := a,
                              mainpc := MRecv (Suc i)\<rparr>"
      by (auto simp: main_step_def split: list.splits option.splits)
    from inv have "\<not> finalEndpointsLock (agg s)" by (simp add: pipeline_inv_def)
    from process_result_unlocked [OF this, of w fl res] p
    have a: "allFoundEndpoints a = allFoundEndpoints (agg s) \<union> links_of w fl res"
      "\<not> finalEndpointsLock a" by auto
    from inv MRecv r a show ?thesis unfolding s' pipeline_inv_def by auto
  next
    case False
    with st MRecv have s': "s' = s\<lparr>mainpc := MWait\<rparr>" by (simp add: main_step_def)
    from inv MRecv have "i = length (received s)" by (simp add: pipeline_inv_def)
    with False inv_received_le [OF inv] have "length (received s) = length (urlsToScan s)"
      by simp
    with inv MRecv show ?thesis unfolding s' pipeline_inv_def by auto
  qed
next
  case MWait
  with st have all: "list_all (\<lambda>x. x = WExit) (workers s)" and s': "s' = finalize w fl s"
    by (auto simp: main_step_def split: if_splits)
  from inv MWait all show ?thesis unfolding s' pipeline_inv_def
    by (auto simp: finalize_fields)
next
  case (MExit c)
  with st show ?thesis by (simp add: main_step_def)
qed

lemma inv_step: "pipeline_inv w fl s \<Longrightarrow> step w fl t s = Some s' \<Longrightarrow> pipeline_inv w fl s'"
  by (cases t) (auto simp: step_def intro: inv_main inv_worker)

lemma sum_list_replicate_empty: "sum_list (replicate n ({#} :: 'a multiset)) = {#}"
  by (induction n) simp_all

lemma inv_init: "pipeline_inv w fl (init_pipeline fl urls)"
  by (simp add: pipeline_inv_def init_pipeline_def list_all_iff sum_list_replicate_empty)

lemma inv_run: "pipeline_inv w fl s \<Longrightarrow> pipeline_inv w fl (run w fl sched s)"
proof (induction sched arbitrary: s)
  case Nil
  then show ?case by simp
next
  case (Cons t ts)
  show ?case
  proof (cases "step w fl t s")
    case None
    with Cons show ?thesis by simp
  next
    case (Some s')
    with Cons.prems have "pipeline_inv w fl s'" by (auto intro: inv_step)
    with Cons.IH Some show ?thesis by simp
  qed
qed

fun wweight :: "wstate \<Rightarrow> nat" where
  "wweight WRecv = 1"
| "wweight (WFetch url) = 4"
| "wweight (WSend r) = 3"
| "wweight WExit = 0"

fun mweight :: "mstate \<Rightarrow> nat" where
  "mweight MSend = 3"
| "mweight (MRecv i) = 2"
| "mweight MWait = 1"
| "mweight (MExit code) = 0"

definition steps_left :: "pipeline \<Rightarrow> nat" where
  "steps_left s =
     5 * length (to_send s) + 4 * length (jobs s) + sum_list (map wweight (workers s)) +
     length (results s) + mweight (mainpc s)"

lemma worker_step_decreases:
  assumes "worker_step w i s = Some s'"
  shows "steps_left s' < steps_left s"
proof -
  from assms have i: "i < length (workers s)" by (simp add: worker_step_def split: if_splits)
  note upd = sum_list_map_update [OF i, of wweight]
  show ?thesis
  proof (cases "workers s ! i")
    case WRecv
    show ?thesis
    proof (cases "jobs s")
      case Nil
      with assms i WRecv have s': "s' = s\<lparr>workers := (workers s)[i := WExit]\<rparr>"
        by (auto simp: worker_step_def split: if_splits)
      from upd [of WExit] WRecv show ?thesis unfolding s' steps_left_def by simp
    next
      case (Cons url rest)
      with assms i WRecv have s': "s' = s\<lparr>jobs := rest, workers := (workers s)[i := WFetch url]\<rparr>"
        by (auto simp: worker_step_def)
      from upd [of "WFetch url"] WRecv Cons show ?thesis unfolding s' steps_left_def by simp
    qed
  next
    case (WFetch url)
    with assms i have s': "s' = s\<lparr>workers := (workers s)[i := WSend (worker_job w url)]\<rparr>"
      by (auto simp: worker_step_def)
    from upd [of "WSend (worker_job w url)"] WFetch show ?thesis unfolding s' steps_left_def by simp
  next
    case (WSend r)
    with assms i have s': "s' = s\<lparr>results := results s @ [r], emitted := emitted s @ [r],
                       workers := (workers s)[i := WRecv]\<rparr>"
      by (auto simp: worker_step_def split: if_splits)
    from upd [of WRecv] WSend show ?thesis unfolding s' steps_left_def by simp
  next
    case WExit
    with assms i show ?thesis by (simp add: worker_step_def)
  qed
qed

lemma main_step_decreases:
  assumes "main_step w fl s = Some s'"
  shows "steps_left s' < steps_left s"
proof (cases "mainpc s")
  case MSend
  with assms show ?thesis
    by (auto simp: main_step_def steps_left_def split: list.splits if_splits)
next
  case (MRecv i)
  with assms show ?thesis
    by (auto simp: main_step_def steps_left_def split: list.splits if_splits option.splits)
next
  case MWait
  with assms show ?thesis
    by (auto simp: main_step_def steps_left_def finalize_fields split: if_splits)
next
  case (MExit c)
  with assms show ?thesis by (simp add: main_step_def)
qed

lemma step_decreases: "step w fl t s = Some s' \<Longrightarrow> steps_left s' < steps_left s"
  by (cases t) (auto simp: step_def intro: main_step_decreases worker_step_decreases)

lemma no_flight:
  "sum_list (map in_flight ws) = {#} \<Longrightarrow> x \<in> set ws \<Longrightarrow> x = WRecv \<or> x = WExit"
proof (induction ws)
  case Nil
  then show ?case by simp
next
  case (Cons a ws)
  then show ?case by (cases a) auto
qed

lemma idle_no_flight:
  "\<forall>x \<in> set ws. x = WRecv \<or> x = WExit \<Longrightarrow> sum_list (map in_flight ws) = {#}"
  by (induction ws) auto

lemma progress:
  assumes inv: "pipeline_inv w fl s" and T: "workers s \<noteq> []"
    and run: "\<forall>c. mainpc s \<noteq> MExit c"
  shows "\<exists>t. step w fl t s \<noteq> None"
proof -
  note cnt = inv_received_le [OF inv]
  have main: "step w fl Main s \<noteq> None" if "main_step w fl s \<noteq> None"
    using that by (simp add: step_def)
  have worker: "step w fl (Worker i) s \<noteq> None" if "worker_step w i s \<noteq> None" for i
    using that by (simp add: step_def)
  have busy: "\<exists>t. step w fl t s \<noteq> None"
    if x: "x \<in> set (workers s)" "x \<noteq> WRecv" "x \<noteq> WExit" and r: "results s = []"
      and n: "0 < length (urlsToScan s)" for x
  proof -
    from x(1) obtain i where i: "i < length (workers s)" "workers s ! i = x"
      by (auto simp: in_set_conv_nth)
    with x(2,3) r n have "worker_step w i s \<noteq> None"
      by (cases x) (auto simp: worker_step_def)
    then show ?thesis using worker by blast
  qed
  show ?thesis
  proof (cases "mainpc s")
    case MSend
    with cnt have "main_step w fl s \<noteq> None"
      by (auto simp: main_step_def split: list.splits)
    then show ?thesis using main by blast
  next
    case (MRecv i)
    with inv have i: "i = length (received s)" and ts: "to_send s = []" and cl: "jobs_closed s"
      by (auto simp: pipeline_inv_def)
    show ?thesis
    proof (cases "i < length (urlsToScan s)")
      case False
      with MRecv have "main_step w fl s \<noteq> None" by (simp add: main_step_def)
      then show ?thesis using main by blast
    next
      case True
      show ?thesis
      proof (cases "results s")
        case (Cons res rest)
        from inv have "\<not> finalEndpointsLock (agg s)" by (simp add: pipeline_inv_def)
        from process_result_unlocked [OF this, of w fl res]
        have "process_result w fl res (agg s) \<noteq> None" by auto
        with MRecv True Cons have "main_step w fl s \<noteq> None"
          by (auto simp: main_step_def)
        then show ?thesis using main by blast
      next
        case Nil
        show ?thesis
        proof (cases "\<exists>x \<in> set (workers s). x \<noteq> WRecv \<and> x \<noteq> WExit")
          case True
          then obtain x where x: "x \<in> set (workers s)" "x \<noteq> WRecv" "x \<noteq> WExit" by blast
          from \<open>i < length (urlsToScan s)\<close> have n: "0 < length (urlsToScan s)"
            by (cases "urlsToScan s") auto
          from busy [OF x Nil n] show ?thesis .
        next
          case False
          then have "sum_list (map in_flight (workers s)) = {#}"
            by (intro idle_no_flight) auto
          with cnt Nil ts i True have "jobs s \<noteq> []" by auto
          with inv have "WExit \<notin> set (workers s)" by (auto simp: pipeline_inv_def)
          moreover from T have "workers s ! 0 \<in> set (workers s)" by simp
          ultimately have "workers s ! 0 = WRecv" using False by metis
          with T \<open>jobs s \<noteq> []\<close> have "worker_step w 0 s \<noteq> None"
            by (auto simp: worker_step_def split: list.splits)
          then show ?thesis using worker by blast
        qed
      qed
    qed
  next
    case MWait
    with inv have n: "length (received s) = length (urlsToScan s)" and cl: "jobs_closed s"
      by (auto simp: pipeline_inv_def)
    with cnt have j: "jobs s = []" and fl0: "sum_list (map in_flight (workers s)) = {#}"
      by auto
    show ?thesis
    proof (cases "list_all (\<lambda>x. x = WExit) (workers s)")
      case True
      with MWait have "main_step w fl s \<noteq> None" by (simp add: main_step_def)
      then show ?thesis using main by blast
    next
      case False
      then obtain x where x: "x \<in> set (workers s)" "x \<noteq> WExit" by (auto simp: list_all_iff)
      with no_flight [OF fl0] have "x = WRecv" by auto
      with x(1) obtain i where "i < length (workers s)" "workers s ! i = WRecv"
        by (auto simp: in_set_conv_nth)
      with j cl have "worker_step w i s \<noteq> None" by (simp add: worker_step_def)
      then show ?thesis using worker by blast
    qed
  next
    case (MExit c)
    with run show ?thesis by simp
  qed
qed

datatype io_action = OpenFile string | StatStdin | ReadStdin

datatype fatal_error = InputFileMissing | NoInput | StdinStatPanic

definition scan_lines :: "string list \<Rightarrow> string list" where
  "scan_lines ls = filter (\<lambda>line. line \<noteq> []) (map TrimSpace ls)"

definition select_input ::
  "'u world \<Rightarrow> flags \<Rightarrow> io_action list \<times> (fatal_error + string list)" where
  "select_input w fl =
     (if targetURL fl \<noteq> [] then ([], Inr [targetURL fl])
      else if urlList fl \<noteq> [] then
        (case open_lines w (urlList fl) of
           None \<Rightarrow> ([OpenFile (urlList fl)], Inl InputFileMissing)
         | Some ls \<Rightarrow> ([OpenFile (urlList fl)], Inr (scan_lines ls)))
      else
        (case stdin_stat w of
           None \<Rightarrow> ([StatStdin], Inl StdinStatPanic)
         | Some CharDevice \<Rightarrow> ([StatStdin], Inr [])
         | Some PipeOrFile \<Rightarrow> ([StatStdin, ReadStdin], Inr (scan_lines (stdin_lines w)))))"

definition start :: "'u world \<Rightarrow> flags \<Rightarrow> (fatal_error \<times> int) + pipeline" where
  "start w fl =
     (case snd (select_input w fl) of
        Inl StdinStatPanic \<Rightarrow> Inl (StdinStatPanic, 2)
      | Inl e \<Rightarrow> Inl (e, 1)
      | Inr urls \<Rightarrow> if urls = [] then Inl (NoInput, 1) else Inr (init_pipeline fl urls))"

definition program :: "'u world \<Rightarrow> flags \<Rightarrow> tid list \<Rightarrow> (fatal_error \<times> int) + pipeline" where
  "program w fl sched =
     (case start w fl of Inl e \<Rightarrow> Inl e | Inr s \<Rightarrow> Inr (run w fl sched s))"

definition keys_enumerated :: "'u world \<Rightarrow> bool" where
  "keys_enumerated w \<longleftrightarrow>
     (\<forall>m. finite m \<longrightarrow> distinct (range_keys w m) \<and> set (range_keys w m) = m)"

lemma step_urls: "step w fl t s = Some s' \<Longrightarrow> urlsToScan s' = urlsToScan s"
  by (cases t)
    (auto simp: step_def main_step_def worker_step_def finalize_fields
      split: mstate.splits list.splits if_splits option.splits wstate.splits)

lemma run_urls: "urlsToScan (run w fl sched s) = urlsToScan s"
proof (induction sched arbitrary: s)
  case Nil
  then show ?case by simp
next
  case (Cons t ts)
  then show ?case by (cases "step w fl t s") (simp_all add: step_urls)
qed

lemma drained:
  assumes inv: "pipeline_inv w fl s" and n: "length (received s) = length (urlsToScan s)"
  shows "results s = [] \<and> emitted s = received s \<and>
     mset (map sourceURL (received s)) = mset (urlsToScan s) \<and>
     set (received s) = worker_job w ` set (urlsToScan s) \<and>
     allFoundEndpoints (agg s) = (\<Union>u \<in> set (urlsToScan s). links_of w fl (worker_job w u))"
proof -
  from inv_received_le [OF inv] n
  have e: "to_send s = []" "jobs s = []" "sum_list (map in_flight (workers s)) = {#}"
    "results s = []" by auto
  from inv e have em: "emitted s = received s"
    and m: "mset (map sourceURL (received s)) = mset (urlsToScan s)"
    and j: "list_all (\<lambda>r. r = worker_job w (sourceURL r)) (received s)"
    and a: "allFoundEndpoints (agg s) = (\<Union>r \<in> set (received s). links_of w fl r)"
    by (auto simp: pipeline_inv_def)
  from m have "set (map sourceURL (received s)) = set (urlsToScan s)" by (metis set_mset_mset)
  then have su: "sourceURL ` set (received s) = set (urlsToScan s)" by simp
  have "set (received s) = worker_job w ` set (urlsToScan s)"
  proof
    show "set (received s) \<subseteq> worker_job w ` set (urlsToScan s)"
    proof
      fix r assume r: "r \<in> set (received s)"
      with j have "r = worker_job w (sourceURL r)" by (simp add: list_all_iff)
      moreover from r su have "sourceURL r \<in> set (urlsToScan s)" by blast
      ultimately show "r \<in> worker_job w ` set (urlsToScan s)" by (rule image_eqI)
    qed
    show "worker_job w ` set (urlsToScan s) \<subseteq> set (received s)"
    proof
      fix r assume "r \<in> worker_job w ` set (urlsToScan s)"
      then obtain u where u: "u \<in> set (urlsToScan s)" "r = worker_job w u" by blast
      from u(1) su have "u \<in> sourceURL ` set (received s)" by simp
      then obtain r' where r': "r' \<in> set (received s)" "u = sourceURL r'" by (rule imageE)
      with j have "r' = worker_job w u" by (simp add: list_all_iff)
      with u(2) r'(1) show "r \<in> set (received s)" by simp
    qed
  qed
  with a e em m show ?thesis by simp
qed

lemma links_of_finite: "finite (links_of w fl r)"
  by (simp add: links_of_def split: option.splits)

lemma sort_enumeration:
  "distinct ks \<Longrightarrow> set ks = m \<Longrightarrow> sort ks = sorted_list_of_set m"
  by (metis distinct_sort set_sort sorted_sort sorted_list_of_set.idem_if_sorted_distinct)

lemma completion:
  assumes "pipeline_inv w fl s" and "1 \<le> threads fl"
  shows "\<exists>sched. mainpc (run w fl sched s) = MExit (exit_code w fl)"
  using assms(1)
proof (induction "steps_left s" arbitrary: s rule: less_induct)
  case less
  show ?case
  proof (cases "\<exists>c. mainpc s = MExit c")
    case True
    with less.prems have "mainpc s = MExit (exit_code w fl)"
      by (auto simp: pipeline_inv_def)
    then have "mainpc (run w fl [] s) = MExit (exit_code w fl)" by simp
    then show ?thesis by blast
  next
    case False
    from less.prems assms(2) have "workers s \<noteq> []" by (auto simp: pipeline_inv_def)
    with progress [OF less.prems] False obtain t s' where st: "step w fl t s = Some s'"
      by auto
    from inv_step [OF less.prems st] have inv': "pipeline_inv w fl s'" .
    from less.hyps [OF step_decreases [OF st] inv'] obtain sched where
      "mainpc (run w fl sched s') = MExit (exit_code w fl)" by blast
    with st have "mainpc (run w fl (t # sched) s) = MExit (exit_code w fl)" by simp
    then show ?thesis by blast
  qed
qed

lemma run_append: "run w fl (xs @ ys) s = run w fl ys (run w fl xs s)"
proof (induction xs arbitrary: s)
  case Nil
  then show ?case by simp
next
  case (Cons t ts)
  then show ?case by (cases "step w fl t s") simp_all
qed

end
